theory Spec2Isabelle
  imports Complex_Main
begin

section \<open>The single-diode solver of solarcell.py\<close>

text \<open>
  The script works on Python and NumPy floats. A float is read here as the real number it
  denotes, or as \<open>NonFinite\<close> when it is an infinity or a NaN: rounding is not modelled,
  the two ways in which the solver's arithmetic leaves the finite numbers are. These are
  a division of a NumPy float by zero (NumPy returns inf or nan and only warns) and the
  overflow of \<open>np.exp\<close>. A division of one Python number by a zero Python number raises
  \<open>ZeroDivisionError\<close>.
\<close>

datatype py_error = ZeroDivisionError | UnboundLocalError

datatype npfloat = Finite real | NonFinite

subsection \<open>Module constants (lines 5 to 17)\<close>

definition Voc :: real where "Voc = 1.008312"
definition module_Jsc :: real where "module_Jsc = 30.52638788"
definition Vt :: real where "Vt = 0.02585"
definition module_n :: real where "module_n = 1.2"
definition module_J0 :: real where "module_J0 = 1 / 10 ^ 12"
definition module_Rs :: real where "module_Rs = 0.001"
definition module_Rsh :: real where "module_Rsh = 10000"

subsection \<open>The signature: five keyword arguments with defaults, no \<open>Vt\<close>\<close>

text \<open>
  \<open>def solar_cell_current(V, Jsc=Jsc, J0=J0, n=n, Rs=Rs, Rsh=Rsh)\<close>: a keyword the
  caller leaves out is \<open>None\<close> and takes the module constant captured by the \<open>def\<close>.
\<close>

record kwargs =
  kw_Jsc :: "real option"
  kw_J0 :: "real option"
  kw_n :: "real option"
  kw_Rs :: "real option"
  kw_Rsh :: "real option"

definition no_kwargs :: kwargs where
  "no_kwargs = \<lparr>kw_Jsc = None, kw_J0 = None, kw_n = None, kw_Rs = None, kw_Rsh = None\<rparr>"

record args =
  Jsc :: real
  J0 :: real
  n :: real
  Rs :: real
  Rsh :: real

definition bind_kwargs :: "kwargs \<Rightarrow> args" where
  "bind_kwargs kw =
     \<lparr>Jsc = (case kw_Jsc kw of None \<Rightarrow> module_Jsc | Some x \<Rightarrow> x),
      J0 = (case kw_J0 kw of None \<Rightarrow> module_J0 | Some x \<Rightarrow> x),
      n = (case kw_n kw of None \<Rightarrow> module_n | Some x \<Rightarrow> x),
      Rs = (case kw_Rs kw of None \<Rightarrow> module_Rs | Some x \<Rightarrow> x),
      Rsh = (case kw_Rsh kw of None \<Rightarrow> module_Rsh | Some x \<Rightarrow> x)\<rparr>"

subsection \<open>One pass through the loop body (lines 30 to 34)\<close>

text \<open>The argument of both calls of \<open>np.exp\<close>: \<open>(V + J_guess*Rs)/(n*Vt)\<close>.\<close>

definition exponent :: "real \<Rightarrow> args \<Rightarrow> real \<Rightarrow> real" where
  "exponent V a J = (V + J * Rs a) / (n a * Vt)"

text \<open>Line 30, the residual \<open>f\<close>, and line 32, the derivative \<open>df\<close>.\<close>

definition f_at :: "real \<Rightarrow> args \<Rightarrow> real \<Rightarrow> real" where
  "f_at V a J = J - Jsc a + J0 a * (exp (exponent V a J) - 1) + (V + J * Rs a) / Rsh a"

definition df_at :: "real \<Rightarrow> args \<Rightarrow> real \<Rightarrow> real" where
  "df_at V a J = 1 + (J0 a * Rs a / (n a * Vt)) * exp (exponent V a J) + Rs a / Rsh a"

text \<open>
  \<open>np.exp\<close> on a float64 returns inf, with a warning, when its argument is above the
  logarithm of the largest double.
\<close>

definition exp_overflows :: "real \<Rightarrow> bool" where
  "exp_overflows x \<longleftrightarrow> 709.782712893384 < x"

text \<open>
  The value of \<open>J_new\<close> after line 34 when nothing is raised. An infinite exponential
  makes \<open>f\<close> and \<open>df\<close> infinite or NaN and their quotient NaN; \<open>f/df\<close> with
  \<open>df = 0\<close> is a NumPy division, so inf or nan; a non-finite \<open>J_guess\<close> makes \<open>f\<close>,
  and with it \<open>J_new\<close>, non-finite again.
\<close>

definition J_next :: "real \<Rightarrow> args \<Rightarrow> npfloat \<Rightarrow> npfloat" where
  "J_next V a Jg =
     (case Jg of
        NonFinite \<Rightarrow> NonFinite
      | Finite J \<Rightarrow>
          if exp_overflows (exponent V a J) \<or> df_at V a J = 0 then NonFinite
          else Finite (J - f_at V a J / df_at V a J))"

text \<open>
  The keyword arguments are Python floats, so \<open>J0*Rs/(n*Vt)\<close> and \<open>Rs/Rsh\<close> on
  line 32 are Python divisions: they raise when \<open>n*Vt\<close> or \<open>Rsh\<close> is zero (if line 30
  has not raised already).
\<close>

definition newton_update :: "real \<Rightarrow> args \<Rightarrow> npfloat \<Rightarrow> py_error + npfloat" where
  "newton_update V a Jg =
     (if n a * Vt = 0 \<or> Rsh a = 0 then Inl ZeroDivisionError else Inr (J_next V a Jg))"

text \<open>Line 36: \<open>abs(J_new - J_guess) < 1e-10\<close>; a comparison with NaN or inf is false.\<close>

fun small_step :: "npfloat \<Rightarrow> npfloat \<Rightarrow> bool" where
  "small_step (Finite x) (Finite y) = (\<bar>x - y\<bar> < 1 / 10 ^ 10)"
| "small_step _ _ = False"

subsection \<open>The loop (lines 26 to 40)\<close>

text \<open>
  The local variables of a call. \<open>J_new\<close> is unbound until line 34 has run once;
  \<open>updates\<close> is a ghost counter of the executions of line 34.
\<close>

record frame =
  J_guess :: npfloat
  J_new :: "npfloat option"
  updates :: nat

fun for_range :: "nat \<Rightarrow> real \<Rightarrow> args \<Rightarrow> frame \<Rightarrow> py_error + frame" where
  "for_range 0 V a s = Inr s"
| "for_range (Suc k) V a s =
     (case newton_update V a (J_guess s) of
        Inl e \<Rightarrow> Inl e
      | Inr j \<Rightarrow>
          (let s' = s\<lparr>J_new := Some j, updates := Suc (updates s)\<rparr>
           in if small_step j (J_guess s) then Inr s'
              else for_range k V a (s'\<lparr>J_guess := j\<rparr>)))"

definition run_loop :: "real \<Rightarrow> kwargs \<Rightarrow> py_error + frame" where
  "run_loop V kw =
     (let a = bind_kwargs kw
      in for_range 100 V a \<lparr>J_guess = Finite (Jsc a), J_new = None, updates = 0\<rparr>)"

definition solar_cell_current :: "real \<Rightarrow> kwargs \<Rightarrow> py_error + npfloat" where
  "solar_cell_current V kw =
     (case run_loop V kw of
        Inl e \<Rightarrow> Inl e
      | Inr s \<Rightarrow> (case J_new s of None \<Rightarrow> Inl UnboundLocalError | Some j \<Rightarrow> Inr j))"

text \<open>The values \<open>J_guess\<close> takes from one pass to the next, when nothing is raised.\<close>

primrec iterates :: "real \<Rightarrow> args \<Rightarrow> nat \<Rightarrow> npfloat" where
  "iterates V a 0 = Finite (Jsc a)"
| "iterates V a (Suc k) = J_next V a (iterates V a k)"

definition step_small :: "real \<Rightarrow> args \<Rightarrow> nat \<Rightarrow> bool" where
  "step_small V a k = small_step (iterates V a (Suc k)) (iterates V a k)"

subsection \<open>The range of a float\<close>

text \<open>
  A float64 holds magnitudes up to \<open>float_max\<close>; a product whose magnitude is at most
  \<open>2\<^sup>-\<^sup>1\<^sup>0\<^sup>7\<^sup>5\<close> rounds to zero. \<open>pass_in_range\<close> says that a pass from \<open>J_guess = J\<close>
  works on finite floats, divides by nothing that is or rounds to zero and that every intermediate value of
  lines 30 to 34 stays within the range: there the pass computes, up to rounding, the
  real numbers of \<open>f_at\<close>, \<open>df_at\<close> and \<open>J_next\<close>. Outside it an intermediate can be
  infinite or NaN although \<open>J_next\<close> is finite, and the properties below that speak of
  a finite result assume it.
\<close>

definition float_max :: real where
  "float_max = (2 - 1 / 2 ^ 52) * 2 ^ 1023"

definition in_range :: "real \<Rightarrow> bool" where
  "in_range x \<longleftrightarrow> \<bar>x\<bar> \<le> float_max"

definition rounds_to_zero :: "real \<Rightarrow> bool" where
  "rounds_to_zero x \<longleftrightarrow> \<bar>x\<bar> \<le> 1 / 2 ^ 1075"

text \<open>\<open>V\<close> and the five keyword values are finite floats.\<close>

definition float_args :: "real \<Rightarrow> args \<Rightarrow> bool" where
  "float_args V a \<longleftrightarrow> list_all in_range [V, Jsc a, J0 a, n a, Rs a, Rsh a]"

definition pass_values :: "real \<Rightarrow> args \<Rightarrow> real \<Rightarrow> real list" where
  "pass_values V a J =
     [J * Rs a, V + J * Rs a, n a * Vt, exponent V a J, exp (exponent V a J),
      exp (exponent V a J) - 1, J0 a * (exp (exponent V a J) - 1), J - Jsc a,
      J - Jsc a + J0 a * (exp (exponent V a J) - 1), (V + J * Rs a) / Rsh a, f_at V a J,
      J0 a * Rs a, J0 a * Rs a / (n a * Vt),
      (J0 a * Rs a / (n a * Vt)) * exp (exponent V a J),
      1 + (J0 a * Rs a / (n a * Vt)) * exp (exponent V a J), Rs a / Rsh a, df_at V a J,
      f_at V a J / df_at V a J, J - f_at V a J / df_at V a J]"

definition pass_in_range :: "real \<Rightarrow> args \<Rightarrow> real \<Rightarrow> bool" where
  "pass_in_range V a J \<longleftrightarrow>
     float_args V a \<and> in_range J \<and> \<not> rounds_to_zero (n a * Vt) \<and> Rsh a \<noteq> 0 \<and> df_at V a J \<noteq> 0 \<and>
     \<not> exp_overflows (exponent V a J) \<and> list_all in_range (pass_values V a J)"

subsection \<open>Line 32 with infinities and NaN\<close>

text \<open>
  For the derivative alone, a float with its infinities and NaN apart. \<open>to_float x\<close> is
  the float an operation returns when its exact result is \<open>x\<close>: an infinity beyond the
  largest double, zero when \<open>x\<close> rounds to zero, and otherwise \<open>x\<close> itself (rounding is
  not modelled). The operations follow IEEE 754: \<open>0 * inf\<close>, \<open>inf - inf\<close>, \<open>inf / inf\<close> and
  \<open>0 / 0\<close> are NaN, a NaN operand gives NaN, a comparison with NaN is false. The sign of
  a zero is not modelled: a zero divisor counts as positive.
\<close>

datatype float64 = Num real | PosInf | NegInf | NaN


fun is_inf :: "float64 \<Rightarrow> bool" where
  "is_inf PosInf = True"
| "is_inf NegInf = True"
| "is_inf _ = False"








subsection \<open>The sweep driver (lines 43 to 45)\<close>

text \<open>
  \<open>np.linspace(start, stop, num)\<close> with its default \<open>endpoint=True\<close>, as NumPy
  documents it: \<open>num\<close> samples \<open>start + i*step\<close> with \<open>step = (stop - start)/(num - 1)\<close>,
  the last one set to \<open>stop\<close>.
\<close>

definition linspace :: "real \<Rightarrow> real \<Rightarrow> nat \<Rightarrow> real list" where
  "linspace start stop num =
     (if num = 1 then [start]
      else (map (\<lambda>i. start + real i * ((stop - start) / real (num - 1))) [0..<num])
             [num - 1 := stop])"

definition V_range :: "real list" where
  "V_range = linspace (- 0.1) (Voc + 0.05) 500"

text \<open>A list comprehension calls its body on each element in order; a raise ends it.\<close>

fun comprehension :: "('a \<Rightarrow> py_error + 'b) \<Rightarrow> 'a list \<Rightarrow> py_error + 'b list" where
  "comprehension g [] = Inr []"
| "comprehension g (x # xs) =
     (case g x of
        Inl e \<Rightarrow> Inl e
      | Inr y \<Rightarrow> (case comprehension g xs of Inl e \<Rightarrow> Inl e | Inr ys \<Rightarrow> Inr (y # ys)))"

definition J_range :: "py_error + npfloat list" where
  "J_range = comprehension (\<lambda>V. solar_cell_current V no_kwargs) V_range"

text \<open>
  The product of two floats: infinite when it leaves the float range, infinite or NaN
  when a factor is.
\<close>

fun fl_mul :: "npfloat \<Rightarrow> npfloat \<Rightarrow> npfloat" where
  "fl_mul (Finite x) (Finite y) = (if in_range (x * y) then Finite (x * y) else NonFinite)"
| "fl_mul _ _ = NonFinite"

definition P_range :: "py_error + npfloat list" where
  "P_range =
     (case J_range of
        Inl e \<Rightarrow> Inl e
      | Inr js \<Rightarrow> Inr (map2 fl_mul (map Finite V_range) js))"

section \<open>The iteration as the specification words it\<close>






section \<open>Calls used as examples\<close>




text \<open>The module's cell with a negative ideality factor.\<close>

definition negative_n :: kwargs where
  "negative_n = no_kwargs\<lparr>kw_n := Some (- 1)\<rparr>"

text \<open>
  A call with a negative ideality factor and a negative shunt resistance, on a cell
  without diode current and series resistance.
\<close>

definition invalid_cell :: kwargs where
  "invalid_cell =
     \<lparr>kw_Jsc = Some 1, kw_J0 = Some 0, kw_n = Some (- 1), kw_Rs = Some 0, kw_Rsh = Some (- 1)\<rparr>"

section \<open>The module's cell in the junction voltage\<close>

text \<open>
  Auxiliary quantities for bounds on the iterates of the sweep. With the module's
  parameters, \<open>u = V + J*Rs\<close> and \<open>c = V + Jsc*Rs\<close>, the residual of line 30 is
  \<open>(psi_ref u - c)/Rs\<close> and the derivative of line 32 is \<open>dpsi_ref u\<close>, so a pass of the
  loop is a Newton step \<open>newton_u c\<close> on \<open>u\<close>, started at \<open>u = c\<close>.
\<close>

definition ref_a :: real where
  "ref_a = module_n * Vt"

definition ref_beta :: real where
  "ref_beta = 1 + module_Rs / module_Rsh"

definition ref_q :: real where
  "ref_q = module_J0 * module_Rs"

definition diode_E :: "real \<Rightarrow> real" where
  "diode_E u = ref_q / ref_a * exp (u / ref_a)"

definition psi_ref :: "real \<Rightarrow> real" where
  "psi_ref u = ref_beta * u + ref_q * (exp (u / ref_a) - 1)"

definition dpsi_ref :: "real \<Rightarrow> real" where
  "dpsi_ref u = ref_beta + diode_E u"

definition newton_u :: "real \<Rightarrow> real \<Rightarrow> real" where
  "newton_u c u = u - (psi_ref u - c) / dpsi_ref u"

primrec U_seq :: "real \<Rightarrow> nat \<Rightarrow> real" where
  "U_seq c 0 = c"
| "U_seq c (Suc k) = newton_u c (U_seq c k)"

section \<open>Properties of the solver and of the sweep\<close>

lemma Vt_pos: "0 < Vt"
  by (simp add: Vt_def)

lemma bind_no_kwargs:
  "bind_kwargs no_kwargs =
     \<lparr>Jsc = module_Jsc, J0 = module_J0, n = module_n, Rs = module_Rs, Rsh = module_Rsh\<rparr>"
  by (simp add: bind_kwargs_def no_kwargs_def)

lemma not_rounds_to_zero_nonzero: "\<not> rounds_to_zero (x * Vt) \<Longrightarrow> x \<noteq> 0"
  by (auto simp add: rounds_to_zero_def)

lemma newton_update_Inr:
  "n a \<noteq> 0 \<Longrightarrow> Rsh a \<noteq> 0 \<Longrightarrow> newton_update V a Jg = Inr (J_next V a Jg)"
  using Vt_pos by (simp add: newton_update_def)

lemma newton_update_Inl:
  "n a = 0 \<or> Rsh a = 0 \<Longrightarrow> newton_update V a Jg = Inl ZeroDivisionError"
  by (auto simp add: newton_update_def)

lemma for_range_numeral:
  "for_range (numeral k) V a s =
     (case newton_update V a (J_guess s) of
        Inl e \<Rightarrow> Inl e
      | Inr j \<Rightarrow>
          (let s' = s\<lparr>J_new := Some j, updates := Suc (updates s)\<rparr>
           in if small_step j (J_guess s) then Inr s'
              else for_range (pred_numeral k) V a (s'\<lparr>J_guess := j\<rparr>)))"
  by (subst numeral_eq_Suc) simp

lemma for_range_exit:
  assumes "n a \<noteq> 0" and "Rsh a \<noteq> 0"
  shows "\<exists>k. i \<le> k \<and> k \<le> i + m \<and>
           for_range (Suc m) V a \<lparr>J_guess = iterates V a i, J_new = jn, updates = i\<rparr> =
             Inr \<lparr>J_guess = iterates V a (if step_small V a k then k else Suc k),
                  J_new = Some (iterates V a (Suc k)), updates = Suc k\<rparr> \<and>
           (\<forall>j. i \<le> j \<and> j < k \<longrightarrow> \<not> step_small V a j) \<and>
           (step_small V a k \<or> k = i + m)"
proof (induction m arbitrary: i jn)
  case 0
  show ?case
    by (rule exI [of _ i]) (auto simp add: newton_update_Inr assms step_small_def)
next
  case (Suc m)
  show ?case
  proof (cases "step_small V a i")
    case True
    then show ?thesis
      by (intro exI [of _ i]) (auto simp add: newton_update_Inr assms step_small_def)
  next
    case False
    from Suc.IH [of "Suc i" "Some (iterates V a (Suc i))"]
    obtain k where k: "Suc i \<le> k" "k \<le> Suc i + m"
      "for_range (Suc m) V a \<lparr>J_guess = iterates V a (Suc i), J_new = Some (iterates V a (Suc i)), updates = Suc i\<rparr> =
         Inr \<lparr>J_guess = iterates V a (if step_small V a k then k else Suc k),
              J_new = Some (iterates V a (Suc k)), updates = Suc k\<rparr>"
      "\<forall>j. Suc i \<le> j \<and> j < k \<longrightarrow> \<not> step_small V a j"
      "step_small V a k \<or> k = Suc i + m"
      by blast
    have run: "for_range (Suc (Suc m)) V a \<lparr>J_guess = iterates V a i, J_new = jn, updates = i\<rparr> =
        for_range (Suc m) V a \<lparr>J_guess = iterates V a (Suc i), J_new = Some (iterates V a (Suc i)), updates = Suc i\<rparr>"
      using False by (simp add: newton_update_Inr assms step_small_def)
    have early: "\<forall>j. i \<le> j \<and> j < k \<longrightarrow> \<not> step_small V a j"
      using k(4) False by (metis Suc_leI le_neq_implies_less)
    show ?thesis
      apply (rule exI [of _ k])
      using k(1,2,5) early unfolding run k(3) by auto
  qed
qed

lemma for_range_exit_pos:
  assumes "n a \<noteq> 0" and "Rsh a \<noteq> 0" and "0 < m"
  shows "\<exists>k. i \<le> k \<and> k < i + m \<and>
           for_range m V a \<lparr>J_guess = iterates V a i, J_new = jn, updates = i\<rparr> =
             Inr \<lparr>J_guess = iterates V a (if step_small V a k then k else Suc k),
                  J_new = Some (iterates V a (Suc k)), updates = Suc k\<rparr> \<and>
           (\<forall>j. i \<le> j \<and> j < k \<longrightarrow> \<not> step_small V a j) \<and>
           (step_small V a k \<or> Suc k = i + m)"
proof -
  from \<open>0 < m\<close> obtain m' where m: "m = Suc m'"
    by (cases m) simp_all
  from for_range_exit [OF assms(1,2), of i m' V jn] show ?thesis
    unfolding m by (metis add_Suc_right le_imp_less_Suc)
qed

lemma run_loop_exit:
  assumes "n (bind_kwargs kw) \<noteq> 0" and "Rsh (bind_kwargs kw) \<noteq> 0"
  shows "\<exists>k<100.
           run_loop V kw =
             Inr \<lparr>J_guess = iterates V (bind_kwargs kw)
                              (if step_small V (bind_kwargs kw) k then k else Suc k),
                  J_new = Some (iterates V (bind_kwargs kw) (Suc k)), updates = Suc k\<rparr> \<and>
           (\<forall>j<k. \<not> step_small V (bind_kwargs kw) j) \<and>
           (step_small V (bind_kwargs kw) k \<or> k = 99)"
proof -
  define a where "a = bind_kwargs kw"
  have start: "run_loop V kw =
      for_range 100 V a \<lparr>J_guess = iterates V a 0, J_new = None, updates = 0\<rparr>"
    unfolding run_loop_def Let_def a_def iterates.simps(1) ..
  have "(0::nat) < 100" by simp
  from for_range_exit_pos [OF assms this, of 0 V None, folded a_def]
  obtain k where k: "k < 0 + 100"
    "for_range 100 V a \<lparr>J_guess = iterates V a 0, J_new = None, updates = 0\<rparr> =
       Inr \<lparr>J_guess = iterates V a (if step_small V a k then k else Suc k),
            J_new = Some (iterates V a (Suc k)), updates = Suc k\<rparr>"
    "\<forall>j. 0 \<le> j \<and> j < k \<longrightarrow> \<not> step_small V a j"
    "step_small V a k \<or> Suc k = 0 + 100"
    by blast
  have "k < 100" using k(1) by simp
  moreover have "\<forall>j<k. \<not> step_small V a j" using k(3) by simp
  moreover have "step_small V a k \<or> k = 99" using k(4) by auto
  ultimately show ?thesis
    unfolding start k(2) a_def [symmetric] by blast
qed

lemma run_loop_raise:
  assumes "n (bind_kwargs kw) = 0 \<or> Rsh (bind_kwargs kw) = 0"
  shows "run_loop V kw = Inl ZeroDivisionError"
  unfolding run_loop_def Let_def
  by (simp add: for_range_numeral newton_update_Inl [OF assms])


lemma solar_cell_current_bound:
  "bind_kwargs kw = bind_kwargs kw' \<Longrightarrow> solar_cell_current V kw = solar_cell_current V kw'"
  by (simp add: solar_cell_current_def run_loop_def)

lemma solar_cell_current_exit:
  assumes "n (bind_kwargs kw) \<noteq> 0" and "Rsh (bind_kwargs kw) \<noteq> 0"
  shows "\<exists>k<100.
           solar_cell_current V kw = Inr (iterates V (bind_kwargs kw) (Suc k)) \<and>
           (\<forall>j<k. \<not> step_small V (bind_kwargs kw) j) \<and>
           (step_small V (bind_kwargs kw) k \<or> k = 99)"
proof -
  from run_loop_exit [OF assms, of V] obtain k where
    k: "k < 100"
      "run_loop V kw =
         Inr \<lparr>J_guess = iterates V (bind_kwargs kw)
                          (if step_small V (bind_kwargs kw) k then k else Suc k),
              J_new = Some (iterates V (bind_kwargs kw) (Suc k)), updates = Suc k\<rparr>"
      "\<forall>j<k. \<not> step_small V (bind_kwargs kw) j"
      "step_small V (bind_kwargs kw) k \<or> k = 99"
    by blast
  have "solar_cell_current V kw = Inr (iterates V (bind_kwargs kw) (Suc k))"
    unfolding solar_cell_current_def k(2) by simp
  with k(1,3,4) show ?thesis by blast
qed








































lemma small_step_NonFinite [simp]:
  "\<not> small_step NonFinite y" "\<not> small_step x NonFinite"
  by (cases y; simp) (cases x; simp)






lemma module_nonzero:
  "n (bind_kwargs no_kwargs) \<noteq> 0" "Rsh (bind_kwargs no_kwargs) \<noteq> 0"
  by (simp_all add: bind_no_kwargs module_n_def module_Rsh_def)





lemma first_step_small:
  assumes "n (bind_kwargs kw) \<noteq> 0" and "Rsh (bind_kwargs kw) \<noteq> 0"
    and "step_small V (bind_kwargs kw) 0"
  shows "solar_cell_current V kw = Inr (iterates V (bind_kwargs kw) (Suc 0))"
proof -
  from solar_cell_current_exit [OF assms(1,2), of V] obtain k where
    k: "solar_cell_current V kw = Inr (iterates V (bind_kwargs kw) (Suc k))"
      "\<forall>j<k. \<not> step_small V (bind_kwargs kw) j"
    by blast
  from k(2) assms(3) have "k = 0"
    by (cases k) auto
  with k(1) show ?thesis by (simp only:)
qed

lemma call_returns:
  assumes "n (bind_kwargs kw) \<noteq> 0" and "Rsh (bind_kwargs kw) \<noteq> 0"
  shows "\<exists>s. run_loop V kw = Inr s \<and> 1 \<le> updates s"
    and "\<exists>j. solar_cell_current V kw = Inr j"
proof -
  from run_loop_exit [OF assms, of V] show "\<exists>s. run_loop V kw = Inr s \<and> 1 \<le> updates s"
    by auto
  from solar_cell_current_exit [OF assms, of V] show "\<exists>j. solar_cell_current V kw = Inr j"
    by blast
qed

lemma call_raises:
  assumes "n (bind_kwargs kw) = 0 \<or> Rsh (bind_kwargs kw) = 0"
  shows "solar_cell_current V kw = Inl ZeroDivisionError"
  unfolding solar_cell_current_def run_loop_raise [OF assms] by simp

lemma bind_negative_n:
  "bind_kwargs negative_n =
     \<lparr>Jsc = module_Jsc, J0 = module_J0, n = - 1, Rs = module_Rs, Rsh = module_Rsh\<rparr>"
  by (simp add: negative_n_def bind_kwargs_def no_kwargs_def)

lemma bind_invalid_cell:
  "bind_kwargs invalid_cell = \<lparr>Jsc = 1, J0 = 0, n = - 1, Rs = 0, Rsh = - 1\<rparr>"
  by (simp add: invalid_cell_def bind_kwargs_def)

lemma invalid_cell_first:
  "iterates 0 (bind_kwargs invalid_cell) (Suc 0) = Finite 1"
  by (simp add: bind_invalid_cell J_next_def exponent_def exp_overflows_def df_at_def f_at_def)

lemma invalid_cell_result:
  "solar_cell_current 0 invalid_cell = Inr (Finite 1)"
proof -
  have nz: "n (bind_kwargs invalid_cell) \<noteq> 0" "Rsh (bind_kwargs invalid_cell) \<noteq> 0"
    by (simp_all add: bind_invalid_cell)
  have "step_small 0 (bind_kwargs invalid_cell) 0"
    unfolding step_small_def invalid_cell_first by (simp add: bind_invalid_cell)
  from first_step_small [OF nz this] show ?thesis
    unfolding invalid_cell_first .
qed

text \<open>
  Claim C5, as stated, fails. The module's cell with \<open>n = -1\<close> is not rejected: the
  loop runs and the call returns a float. A call with \<open>n = -1\<close> and \<open>Rsh = -1\<close> on a
  cell without diode and series terms returns 1.
\<close>

theorem invalid_parameters_are_iterated:
  "n (bind_kwargs negative_n) < 0 \<and>
   \<not> isl (solar_cell_current 0 negative_n) \<and>
   1 \<le> updates (projr (run_loop 0 negative_n)) \<and>
   n (bind_kwargs invalid_cell) < 0 \<and> Rsh (bind_kwargs invalid_cell) < 0 \<and>
   solar_cell_current 0 invalid_cell = Inr (Finite 1)"
proof -
  have nz: "n (bind_kwargs negative_n) \<noteq> 0" "Rsh (bind_kwargs negative_n) \<noteq> 0"
    by (simp_all add: bind_negative_n module_Rsh_def)
  from call_returns [OF nz, of 0]
  have "\<not> isl (solar_cell_current 0 negative_n)"
    "1 \<le> updates (projr (run_loop 0 negative_n))"
    by auto
  then show ?thesis
    by (simp add: bind_negative_n bind_invalid_cell invalid_cell_result)
qed

text \<open>
  Claim C5, amended. A non-positive \<open>n\<close> or \<open>Rsh\<close> is not rejected before the loop: on
  finite floats, when \<open>Rsh\<close> is not zero and \<open>n*Vt\<close> does not round to zero, the Newton
  iteration runs with it (line 34 at least once) and the call returns a float without
  raising.
\<close>

theorem no_parameter_validation:
  assumes "n (bind_kwargs kw) \<le> 0 \<or> Rsh (bind_kwargs kw) \<le> 0"
    and "float_args V (bind_kwargs kw)"
    and "\<not> rounds_to_zero (n (bind_kwargs kw) * Vt)" and "Rsh (bind_kwargs kw) \<noteq> 0"
  shows "(\<exists>s. run_loop V kw = Inr s \<and> 1 \<le> updates s) \<and>
         (\<exists>j. solar_cell_current V kw = Inr j)"
  using call_returns [OF not_rounds_to_zero_nonzero [OF assms(3)] assms(4), of V] by blast

theorem no_parameter_validation_witness:
  "n (bind_kwargs negative_n) \<le> 0 \<and> float_args 0 (bind_kwargs negative_n) \<and>
   \<not> rounds_to_zero (n (bind_kwargs negative_n) * Vt) \<and>
   Rsh (bind_kwargs negative_n) \<noteq> 0 \<and>
   (\<exists>s. run_loop 0 negative_n = Inr s \<and> 1 \<le> updates s) \<and>
   (\<exists>j. solar_cell_current 0 negative_n = Inr j)"
proof -
  have neg: "n (bind_kwargs negative_n) \<le> 0"
    by (simp add: bind_negative_n)
  have "(10000::real) \<le> float_max"
    by (simp add: float_max_def)
  then have fa: "float_args 0 (bind_kwargs negative_n)"
    unfolding float_args_def bind_negative_n in_range_def
    by (simp add: module_Jsc_def module_J0_def module_Rs_def module_Rsh_def)
  have nz: "\<not> rounds_to_zero (n (bind_kwargs negative_n) * Vt)"
    by (simp add: bind_negative_n rounds_to_zero_def Vt_def)
  have sh: "Rsh (bind_kwargs negative_n) \<noteq> 0"
    by (simp add: bind_negative_n module_Rsh_def)
  from neg have "n (bind_kwargs negative_n) \<le> 0 \<or> Rsh (bind_kwargs negative_n) \<le> 0" ..
  from no_parameter_validation [OF this fa nz sh] neg fa nz sh show ?thesis
    by blast
qed











lemma ref_a_pos: "0 < ref_a"
  by (simp add: ref_a_def module_n_def Vt_def)

lemma ref_beta_ge_1: "1 \<le> ref_beta"
  by (simp add: ref_beta_def module_Rs_def module_Rsh_def)

lemma ref_q_nonneg: "0 \<le> ref_q"
  by (simp add: ref_q_def module_Rs_def module_J0_def)

lemma exp_tangent: "exp x * (1 + (y - x)) \<le> exp (y::real)"
proof -
  have "1 + (y - x) \<le> exp (y - x)" by (rule exp_ge_add_one_self)
  then have "exp x * (1 + (y - x)) \<le> exp x * exp (y - x)"
    by (rule mult_left_mono) simp
  also have "exp x * exp (y - x) = exp y"
    by (simp add: exp_add [symmetric])
  finally show ?thesis .
qed

lemma diode_E_nonneg: "0 \<le> diode_E u"
  using ref_a_pos ref_q_nonneg by (simp add: diode_E_def)

lemma dpsi_ge_1: "1 \<le> dpsi_ref u"
  using ref_beta_ge_1 diode_E_nonneg [of u] by (simp add: dpsi_ref_def)

lemma dpsi_pos: "0 < dpsi_ref u"
  using dpsi_ge_1 [of u] by linarith

lemma psi_mono: "u \<le> v \<Longrightarrow> psi_ref u \<le> psi_ref v"
proof -
  assume uv: "u \<le> v"
  then have "u / ref_a \<le> v / ref_a"
    using ref_a_pos by (simp add: divide_right_mono)
  then have "exp (u / ref_a) - 1 \<le> exp (v / ref_a) - 1" by simp
  then have "ref_q * (exp (u / ref_a) - 1) \<le> ref_q * (exp (v / ref_a) - 1)"
    using ref_q_nonneg by (rule mult_left_mono)
  moreover have "ref_beta * u \<le> ref_beta * v"
    using uv ref_beta_ge_1 by (simp add: mult_left_mono)
  ultimately show ?thesis
    unfolding psi_ref_def by linarith
qed

lemma psi_tangent: "psi_ref u + dpsi_ref u * (x - u) \<le> psi_ref x"
proof -
  have "exp (u / ref_a) * (1 + (x / ref_a - u / ref_a)) \<le> exp (x / ref_a)"
    by (rule exp_tangent)
  then have "ref_q * (exp (u / ref_a) * (1 + (x / ref_a - u / ref_a))) \<le> ref_q * exp (x / ref_a)"
    using ref_q_nonneg by (rule mult_left_mono)
  moreover have "ref_q * (exp (u / ref_a) * (1 + (x / ref_a - u / ref_a))) =
      ref_q * exp (u / ref_a) + diode_E u * (x - u)"
    using ref_a_pos by (simp add: diode_E_def field_simps)
  ultimately have "ref_q * exp (u / ref_a) + diode_E u * (x - u) \<le> ref_q * exp (x / ref_a)"
    by simp
  then show ?thesis
    unfolding psi_ref_def dpsi_ref_def by (simp add: algebra_simps)
qed

lemma newton_u_le: "c \<le> psi_ref u \<Longrightarrow> newton_u c u \<le> u"
  using dpsi_pos [of u] by (simp add: newton_u_def)

lemma newton_u_eq: "psi_ref u + dpsi_ref u * (newton_u c u - u) = c"
  using dpsi_pos [of u] by (simp add: newton_u_def)

lemma psi_newton_u: "c \<le> psi_ref (newton_u c u)"
  using psi_tangent [of u "newton_u c u"] by (simp add: newton_u_eq)

lemma module_Rs_pos: "0 < module_Rs"
  by (simp add: module_Rs_def)

lemma module_exponent_u:
  "exponent V (bind_kwargs no_kwargs) J = (V + J * module_Rs) / ref_a"
  by (simp add: exponent_def bind_no_kwargs ref_a_def)

lemma module_df_u:
  "df_at V (bind_kwargs no_kwargs) J = dpsi_ref (V + J * module_Rs)"
  unfolding df_at_def module_exponent_u
  by (simp add: bind_no_kwargs dpsi_ref_def diode_E_def ref_beta_def ref_q_def ref_a_def)

lemma module_f_u:
  "f_at V (bind_kwargs no_kwargs) J =
     (psi_ref (V + J * module_Rs) - (V + module_Jsc * module_Rs)) / module_Rs"
proof -
  have r: "module_Rs \<noteq> 0" using module_Rs_pos by simp
  have h: "module_Rsh \<noteq> 0" by (simp add: module_Rsh_def)
  show ?thesis
    unfolding f_at_def module_exponent_u psi_ref_def ref_beta_def ref_q_def
    using r h by (simp add: bind_no_kwargs field_simps)
qed

lemma module_next_u:
  assumes "(V + J * module_Rs) / ref_a \<le> 700"
  shows "J_next V (bind_kwargs no_kwargs) (Finite J) =
           Finite ((newton_u (V + module_Jsc * module_Rs) (V + J * module_Rs) - V) / module_Rs)"
proof -
  have r: "module_Rs \<noteq> 0" using module_Rs_pos by simp
  have d: "dpsi_ref (V + J * module_Rs) \<noteq> 0"
    using dpsi_pos [of "V + J * module_Rs"] by simp
  have "(700::real) \<le> 709.782712893384" by simp
  with assms have "(V + J * module_Rs) / ref_a \<le> 709.782712893384"
    by (rule order_trans)
  then have no: "\<not> exp_overflows (exponent V (bind_kwargs no_kwargs) J)"
    unfolding module_exponent_u exp_overflows_def by (simp only: not_less)
  have "J - f_at V (bind_kwargs no_kwargs) J / df_at V (bind_kwargs no_kwargs) J =
      (newton_u (V + module_Jsc * module_Rs) (V + J * module_Rs) - V) / module_Rs"
    unfolding module_f_u module_df_u newton_u_def using r d by (simp add: field_simps)
  then show ?thesis
    using no d by (simp add: J_next_def module_df_u)
qed

lemma U_seq_from_first: "U_seq c (Suc k) \<le> U_seq c (Suc 0)"
proof (induction k)
  case 0
  show ?case by simp
next
  case (Suc k)
  have "c \<le> psi_ref (newton_u c (U_seq c k))"
    by (rule psi_newton_u)
  then have "newton_u c (newton_u c (U_seq c k)) \<le> newton_u c (U_seq c k)"
    by (rule newton_u_le)
  with Suc.IH show ?case by simp
qed

lemma ref_small: "2 * (ref_beta - 1) + ref_q \<le> 1"
  by (simp add: ref_beta_def ref_q_def module_Rs_def module_Rsh_def module_J0_def)

lemma U_seq_first_upper:
  assumes "- 2 \<le> c" and "c \<le> 2"
  shows "U_seq c (Suc 0) \<le> 3"
proof -
  have b: "0 \<le> ref_beta - 1" using ref_beta_ge_1 by simp
  have "(ref_beta - 1) * (- 2) \<le> (ref_beta - 1) * c"
    using assms(1) b by (rule mult_left_mono)
  moreover have "0 \<le> ref_q * exp (c / ref_a)"
    using ref_q_nonneg by simp
  ultimately have low: "- (2 * (ref_beta - 1) + ref_q) \<le> psi_ref c - c"
    unfolding psi_ref_def by (simp add: algebra_simps)
  have "- ((psi_ref c - c) / dpsi_ref c) \<le> 2 * (ref_beta - 1) + ref_q"
  proof (cases "0 \<le> psi_ref c - c")
    case True
    then have "0 \<le> (psi_ref c - c) / dpsi_ref c"
      using dpsi_pos [of c] by simp
    moreover have "0 \<le> 2 * (ref_beta - 1) + ref_q"
      using b ref_q_nonneg by simp
    ultimately show ?thesis by linarith
  next
    case False
    define g where "g = - (psi_ref c - c)"
    have neg: "0 \<le> g" using False by (simp add: g_def)
    have "g / dpsi_ref c \<le> g / 1"
      using neg dpsi_ge_1 [of c] by (intro divide_left_mono) simp_all
    moreover have "g \<le> 2 * (ref_beta - 1) + ref_q"
      using low by (simp add: g_def)
    ultimately have "g / dpsi_ref c \<le> 2 * (ref_beta - 1) + ref_q" by simp
    moreover have "g / dpsi_ref c = - ((psi_ref c - c) / dpsi_ref c)"
      unfolding g_def by (rule minus_divide_left [symmetric])
    ultimately show ?thesis by (simp only:)
  qed
  then have "newton_u c c \<le> c + (2 * (ref_beta - 1) + ref_q)"
    unfolding newton_u_def by linarith
  with ref_small assms(2) show ?thesis by simp
qed

lemma U_seq_upper:
  assumes "- 2 \<le> c" and "c \<le> 2"
  shows "U_seq c k \<le> 3"
proof (cases k)
  case 0
  with assms(2) show ?thesis by simp
next
  case (Suc j)
  with U_seq_from_first [of c j] U_seq_first_upper [OF assms] show ?thesis
    by (simp del: U_seq.simps)
qed

lemma psi_below: "psi_ref (- 3) \<le> - 3"
proof -
  have "- 3 / ref_a \<le> 0" using ref_a_pos by simp
  then have "exp (- 3 / ref_a) \<le> 1" by simp
  then have "ref_q * (exp (- 3 / ref_a) - 1) \<le> 0"
    using ref_q_nonneg by (simp add: mult_nonneg_nonpos)
  moreover have "ref_beta * (- 3) \<le> - 3"
    using ref_beta_ge_1 by simp
  ultimately show ?thesis
    unfolding psi_ref_def by linarith
qed

lemma U_seq_lower:
  assumes "- 2 \<le> c" and "c \<le> 2"
  shows "- 3 \<le> U_seq c k"
proof (cases k)
  case 0
  with assms(1) show ?thesis by simp
next
  case (Suc j)
  have "c \<le> psi_ref (U_seq c (Suc j))"
    by (simp add: psi_newton_u)
  with psi_below assms(1) have "psi_ref (- 3) < psi_ref (U_seq c (Suc j))" by linarith
  then have "- 3 < U_seq c (Suc j)"
    using psi_mono [of "U_seq c (Suc j)" "- 3"] by (cases "- 3 < U_seq c (Suc j)") auto
  with Suc show ?thesis by (simp del: U_seq.simps)
qed

lemma module_iterates_u:
  assumes "- 2 \<le> V + module_Jsc * module_Rs" and "V + module_Jsc * module_Rs \<le> 2"
  shows "iterates V (bind_kwargs no_kwargs) k =
           Finite ((U_seq (V + module_Jsc * module_Rs) k - V) / module_Rs)"
proof (induction k)
  case 0
  have "module_Rs \<noteq> 0" using module_Rs_pos by simp
  then show ?case by (simp add: bind_no_kwargs)
next
  case (Suc k)
  define c where "c = V + module_Jsc * module_Rs"
  have r: "module_Rs \<noteq> 0" using module_Rs_pos by simp
  have u: "V + (U_seq c k - V) / module_Rs * module_Rs = U_seq c k"
    using r by simp
  have "U_seq c k \<le> 3"
    using U_seq_upper [of c k] assms unfolding c_def by linarith
  then have "U_seq c k / ref_a \<le> 3 / ref_a"
    using ref_a_pos by (simp add: divide_right_mono)
  also have "3 / ref_a \<le> 700"
    by (simp add: ref_a_def module_n_def Vt_def)
  finally have small: "(V + (U_seq c k - V) / module_Rs * module_Rs) / ref_a \<le> 700"
    unfolding u .
  have "iterates V (bind_kwargs no_kwargs) (Suc k) =
      J_next V (bind_kwargs no_kwargs) (Finite ((U_seq c k - V) / module_Rs))"
    using Suc.IH by (simp add: c_def)
  also have "\<dots> = Finite ((newton_u c (U_seq c k) - V) / module_Rs)"
    using module_next_u [OF small] unfolding u c_def [symmetric] .
  finally show ?case
    by (simp add: c_def)
qed

lemma length_linspace: "length (linspace a b num) = num"
  by (simp add: linspace_def)

lemma linspace_nth:
  assumes "1 < num" and "i < num"
  shows "linspace a b num ! i = a + real i * ((b - a) / real (num - 1))"
proof (cases "i = num - 1")
  case True
  have "real (num - 1) \<noteq> 0" using assms(1) by simp
  then have "a + real (num - 1) * ((b - a) / real (num - 1)) = b" by simp
  then show ?thesis
    using assms True by (simp add: linspace_def)
next
  case False
  then show ?thesis
    using assms by (simp add: linspace_def)
qed

lemma linspace_last: "1 < num \<Longrightarrow> linspace a b num ! (num - 1) = b"
  by (simp add: linspace_def)

lemma length_V_range: "length V_range = 500"
  by (simp add: V_range_def length_linspace)

lemma V_range_nth:
  "i < 500 \<Longrightarrow> V_range ! i = - 0.1 + real i * ((Voc + 0.05 - (- 0.1)) / 499)"
  unfolding V_range_def by (subst linspace_nth) simp_all

lemma V_range_step_pos: "0 < (Voc + 0.05 - (- 0.1)) / (499::real)"
  by (simp add: Voc_def)

lemma V_range_ascending: "sorted_wrt (<) V_range"
proof -
  have "V_range ! i < V_range ! j" if "i < j" and "j < 500" for i j
  proof -
    from that have "i < 500" by simp
    have "real i < real j" using that(1) by simp
    then have "real i * ((Voc + 0.05 - (- 0.1)) / 499) < real j * ((Voc + 0.05 - (- 0.1)) / 499)"
      using V_range_step_pos by (rule mult_strict_right_mono)
    then show ?thesis
      unfolding V_range_nth [OF \<open>i < 500\<close>] V_range_nth [OF \<open>j < 500\<close>] by simp
  qed
  then show ?thesis
    by (simp add: sorted_wrt_iff_nth_less length_V_range)
qed

lemma V_range_spacing:
  assumes "i < 499"
  shows "V_range ! Suc i - V_range ! i = (Voc + 0.05 - (- 0.1)) / 499"
proof -
  from assms have "i < 500" "Suc i < 500" by simp_all
  have "(a + real (Suc i) * s) - (a + real i * s) = s" for a s :: real
    by (simp add: distrib_right)
  then show ?thesis
    unfolding V_range_nth [OF \<open>i < 500\<close>] V_range_nth [OF \<open>Suc i < 500\<close>] .
qed

lemma exp_97: "exp (97::real) \<le> 3 ^ 97"
proof -
  have "exp (real 97 * 1) = exp (1::real) ^ 97" by (rule exp_of_nat_mult)
  then have "exp (97::real) = exp 1 ^ 97" by simp
  also have "\<dots> \<le> (3::real) ^ 97"
    by (rule power_mono) (simp_all add: exp_le)
  finally show ?thesis .
qed

lemma quotient_bound:
  fixes f d :: real
  assumes "1 \<le> d"
  shows "\<bar>f / d\<bar> \<le> \<bar>f\<bar>"
proof -
  have "\<bar>f\<bar> / d \<le> \<bar>f\<bar> / 1"
    using assms by (intro divide_left_mono) simp_all
  then show ?thesis using assms by simp
qed

lemma module_pass_in_range:
  assumes "- 2 \<le> V" and "V \<le> 1.9" and "- 3 \<le> u" and "u \<le> 3"
  shows "pass_in_range V (bind_kwargs no_kwargs) ((u - V) / module_Rs)"
proof -
  define a where "a = bind_kwargs no_kwargs"
  define J where "J = (u - V) / module_Rs"
  define E where "E = exp (exponent V a J)"
  define M :: real where "M = 3 ^ 97 + 20000"
  have par: "Jsc a = module_Jsc" "J0 a = module_J0" "n a = module_n" "Rs a = module_Rs"
    "Rsh a = module_Rsh"
    by (simp_all add: a_def bind_no_kwargs)
  have M: "M \<le> float_max" by (simp add: M_def float_max_def)
  have M0: "3 ^ 97 + 20000 \<le> M" by (simp add: M_def)
  have JR: "J * Rs a = u - V"
    by (simp add: J_def par module_Rs_def)
  have u: "V + J * Rs a = u"
    by (simp add: JR)
  have nV: "n a * Vt = ref_a"
    by (simp add: par ref_a_def)
  have ra: "ref_a = 0.03102"
    by (simp add: ref_a_def module_n_def Vt_def)
  have ex: "exponent V a J = u / ref_a"
    by (simp add: exponent_def u nV)
  have exb: "- 97 \<le> u / ref_a" "u / ref_a \<le> 97"
    using assms(3,4) by (simp_all add: ra)
  have "E \<le> exp 97"
    unfolding E_def ex using exb(2) by simp
  then have E: "0 < E" "E \<le> 3 ^ 97"
    using exp_97 by (simp add: E_def, rule order_trans)
  have Jb: "\<bar>J\<bar> \<le> 5000"
    using assms by (simp add: J_def module_Rs_def abs_le_iff)
  have v7: "\<bar>J0 a * (E - 1)\<bar> \<le> 3 ^ 97"
    using E by (simp add: par module_J0_def abs_le_iff)
  have v8: "\<bar>J - Jsc a\<bar> \<le> 5031"
    using Jb by (simp add: par module_Jsc_def abs_le_iff)
  have v10: "\<bar>(V + J * Rs a) / Rsh a\<bar> \<le> 1"
    unfolding u using assms(3,4) by (simp add: par module_Rsh_def abs_le_iff)
  have f: "f_at V a J = J - Jsc a + J0 a * (E - 1) + (V + J * Rs a) / Rsh a"
    by (simp add: f_at_def E_def)
  have fb: "\<bar>f_at V a J\<bar> \<le> 3 ^ 97 + 5032"
    unfolding f using v7 v8 v10 by linarith
  have c: "0 \<le> J0 a * Rs a / (n a * Vt)" "J0 a * Rs a / (n a * Vt) \<le> 1"
    unfolding nV by (simp_all add: par ra module_J0_def module_Rs_def)
  have v14: "0 \<le> J0 a * Rs a / (n a * Vt) * E" "J0 a * Rs a / (n a * Vt) * E \<le> 3 ^ 97"
  proof -
    show "0 \<le> J0 a * Rs a / (n a * Vt) * E"
      by (rule mult_nonneg_nonneg [OF c(1) less_imp_le [OF E(1)]])
    have "J0 a * Rs a / (n a * Vt) * E \<le> 1 * 3 ^ 97"
      by (rule mult_mono) (use c E in simp_all)
    then show "J0 a * Rs a / (n a * Vt) * E \<le> 3 ^ 97" by simp
  qed
  have v16: "0 \<le> Rs a / Rsh a" "Rs a / Rsh a \<le> 1"
    by (simp_all add: par module_Rs_def module_Rsh_def)
  have df: "df_at V a J = 1 + J0 a * Rs a / (n a * Vt) * E + Rs a / Rsh a"
    by (simp add: df_at_def E_def)
  have dfb: "1 \<le> df_at V a J" "df_at V a J \<le> 3 ^ 97 + 2"
    unfolding df using v14 v16 by linarith+
  have qb: "\<bar>f_at V a J / df_at V a J\<bar> \<le> 3 ^ 97 + 5032"
    using quotient_bound [OF dfb(1), of "f_at V a J"] fb by linarith
  have r: "in_range x" if "\<bar>x\<bar> \<le> 3 ^ 97 + 20000" for x
    unfolding in_range_def using that M M0 by linarith
  have "in_range (J * Rs a)"
    unfolding JR using assms by (intro r) (simp add: abs_le_iff)
  moreover have "in_range (V + J * Rs a)"
    unfolding u using assms by (intro r) (simp add: abs_le_iff)
  moreover have "in_range (n a * Vt)"
    unfolding nV ra by (intro r) simp
  moreover have "in_range (exponent V a J)"
    unfolding ex using exb by (intro r) (simp add: abs_le_iff)
  moreover have "in_range E"
    using E by (intro r) (simp add: abs_le_iff)
  moreover have "in_range (E - 1)"
    using E by (intro r) (simp add: abs_le_iff)
  moreover have "in_range (J0 a * (E - 1))"
    using v7 by (intro r) simp
  moreover have "in_range (J - Jsc a)"
    using v8 by (intro r) simp
  moreover have "in_range (J - Jsc a + J0 a * (E - 1))"
    using v7 v8 by (intro r) linarith
  moreover have "in_range ((V + J * Rs a) / Rsh a)"
    using v10 by (intro r) simp
  moreover have "in_range (f_at V a J)"
    using fb by (intro r) simp
  moreover have "in_range (J0 a * Rs a)"
    by (intro r) (simp add: par module_J0_def module_Rs_def)
  moreover have "in_range (J0 a * Rs a / (n a * Vt))"
    using c by (intro r) (simp add: abs_le_iff)
  moreover have "in_range (J0 a * Rs a / (n a * Vt) * E)"
    using v14 by (intro r) (simp add: abs_le_iff)
  moreover have "in_range (1 + J0 a * Rs a / (n a * Vt) * E)"
    using v14 by (intro r) (simp add: abs_le_iff)
  moreover have "in_range (Rs a / Rsh a)"
    using v16 by (intro r) (simp add: abs_le_iff)
  moreover have "in_range (df_at V a J)"
    using dfb by (intro r) (simp add: abs_le_iff)
  moreover have "in_range (f_at V a J / df_at V a J)"
    using qb by (intro r) simp
  moreover have "in_range (J - f_at V a J / df_at V a J)"
    using qb Jb by (intro r) linarith
  ultimately have rng: "list_all in_range (pass_values V a J)"
    unfolding pass_values_def E_def by (simp only: list.pred_inject simp_thms)
  have "float_args V a"
    unfolding float_args_def in_range_def using assms M
    by (simp add: par M_def module_Jsc_def module_J0_def module_n_def module_Rs_def
        module_Rsh_def abs_le_iff)
  moreover have "in_range J"
    using Jb by (intro r) simp
  moreover have "\<not> rounds_to_zero (n a * Vt)"
    unfolding nV ra by (simp add: rounds_to_zero_def)
  moreover have "Rsh a \<noteq> 0"
    by (simp add: par module_Rsh_def)
  moreover have "df_at V a J \<noteq> 0"
    using dfb(1) by simp
  moreover have "\<not> exp_overflows (exponent V a J)"
  proof -
    have "u / ref_a \<le> 709.782712893384"
      using exb(2) by (rule order_trans) simp
    then show ?thesis
      unfolding ex exp_overflows_def by (simp only: not_less)
  qed
  ultimately show ?thesis
    unfolding pass_in_range_def a_def [symmetric] J_def [symmetric] using rng by blast
qed

lemma module_grid_passes:
  assumes "- 2 \<le> V" and "V \<le> 1.9"
  shows "\<exists>J. iterates V (bind_kwargs no_kwargs) k = Finite J \<and>
             pass_in_range V (bind_kwargs no_kwargs) J"
proof -
  define c where "c = V + module_Jsc * module_Rs"
  have c: "- 2 \<le> c" "c \<le> 2"
    using assms by (simp_all add: c_def module_Jsc_def module_Rs_def)
  have "iterates V (bind_kwargs no_kwargs) k = Finite ((U_seq c k - V) / module_Rs)"
    unfolding c_def by (rule module_iterates_u) (use c in \<open>simp_all add: c_def\<close>)
  moreover have "pass_in_range V (bind_kwargs no_kwargs) ((U_seq c k - V) / module_Rs)"
    using assms U_seq_lower [OF c] U_seq_upper [OF c] by (rule module_pass_in_range)
  ultimately show ?thesis by blast
qed

lemma module_grid_result:
  assumes "- 2 \<le> V" and "V \<le> 1.9"
  shows "\<exists>x. solar_cell_current V no_kwargs = Inr (Finite x) \<and> \<bar>x\<bar> \<le> 5000"
proof -
  define c where "c = V + module_Jsc * module_Rs"
  have c: "- 2 \<le> c" "c \<le> 2"
    using assms by (simp_all add: c_def module_Jsc_def module_Rs_def)
  from solar_cell_current_exit [OF module_nonzero, of V] obtain k where
    k: "solar_cell_current V no_kwargs = Inr (iterates V (bind_kwargs no_kwargs) (Suc k))"
    by blast
  define u where "u = U_seq c (Suc k)"
  have it: "iterates V (bind_kwargs no_kwargs) (Suc k) = Finite ((u - V) / module_Rs)"
    unfolding u_def c_def by (rule module_iterates_u) (use c in \<open>simp_all add: c_def\<close>)
  have "u \<le> 3" "- 3 \<le> u"
    unfolding u_def using U_seq_upper [OF c] U_seq_lower [OF c] by blast+
  with assms have "\<bar>u - V\<bar> \<le> 5" by (simp add: abs_le_iff)
  then have "\<bar>(u - V) / module_Rs\<bar> \<le> 5000"
    by (simp add: module_Rs_def)
  with k it show ?thesis by simp
qed

lemma V_range_bounds:
  assumes "i < 500"
  shows "- 0.1 \<le> V_range ! i" and "V_range ! i \<le> Voc + 0.05"
proof -
  have s: "0 \<le> (Voc + 0.05 - (- 0.1)) / (499::real)"
    using V_range_step_pos by simp
  have "0 \<le> real i * ((Voc + 0.05 - (- 0.1)) / 499)"
    using s by simp
  then show "- 0.1 \<le> V_range ! i"
    unfolding V_range_nth [OF assms] by simp
  have "real i \<le> 499" using assms by simp
  then have "real i * ((Voc + 0.05 - (- 0.1)) / 499) \<le> 499 * ((Voc + 0.05 - (- 0.1)) / 499)"
    using s by (rule mult_right_mono)
  then show "V_range ! i \<le> Voc + 0.05"
    unfolding V_range_nth [OF assms] by simp
qed

lemma comprehension_nth:
  assumes "length ys = length xs" and "\<And>i. i < length xs \<Longrightarrow> g (xs ! i) = Inr (ys ! i)"
  shows "comprehension g xs = Inr ys"
  using assms
proof (induction xs ys rule: list_induct2')
  case (4 x xs y ys)
  from 4(3) [of 0] have h: "g x = Inr y" by simp
  have "comprehension g xs = Inr ys"
  proof (rule 4(1))
    show "length ys = length xs" using 4(2) by simp
    fix i assume "i < length xs"
    then show "g (xs ! i) = Inr (ys ! i)" using 4(3) [of "Suc i"] by simp
  qed
  with h show ?case by simp
qed simp_all

lemma choose_list:
  "(\<And>i. i < length vs \<Longrightarrow> \<exists>x. P (vs ! i) x) \<Longrightarrow>
     \<exists>xs. length xs = length vs \<and> (\<forall>i<length vs. P (vs ! i) (xs ! i))"
proof (induction vs)
  case Nil
  show ?case by simp
next
  case (Cons v vs)
  from Cons.prems [of 0] obtain x where x: "P v x" by auto
  have "\<exists>xs. length xs = length vs \<and> (\<forall>i<length vs. P (vs ! i) (xs ! i))"
  proof (rule Cons.IH)
    fix i assume "i < length vs"
    then show "\<exists>x. P (vs ! i) x" using Cons.prems [of "Suc i"] by simp
  qed
  then obtain xs where xs: "length xs = length vs" "\<forall>i<length vs. P (vs ! i) (xs ! i)"
    by blast
  have "\<forall>i<length (v # vs). P ((v # vs) ! i) ((x # xs) ! i)"
  proof (intro allI impI)
    fix i assume "i < length (v # vs)"
    then show "P ((v # vs) ! i) ((x # xs) ! i)"
      using x xs(2) by (cases i) simp_all
  qed
  with xs(1) show ?case
    by (intro exI [of _ "x # xs"]) simp
qed

lemma sweep_currents:
  "\<exists>xs. length xs = 500 \<and>
     (\<forall>i<500. solar_cell_current (V_range ! i) no_kwargs = Inr (Finite (xs ! i)) \<and>
               \<bar>xs ! i\<bar> \<le> 5000)"
proof -
  have "\<exists>x. solar_cell_current (V_range ! i) no_kwargs = Inr (Finite x) \<and> \<bar>x\<bar> \<le> 5000"
    if "i < length V_range" for i
  proof (rule module_grid_result)
    from that have i: "i < 500" by (simp add: length_V_range)
    show "- 2 \<le> V_range ! i" using V_range_bounds(1) [OF i] by simp
    show "V_range ! i \<le> 1.9" using V_range_bounds(2) [OF i] by (simp add: Voc_def)
  qed
  from choose_list [of V_range
      "\<lambda>V x. solar_cell_current V no_kwargs = Inr (Finite x) \<and> \<bar>x\<bar> \<le> 5000", OF this]
  show ?thesis by (simp add: length_V_range)
qed

lemma power_in_range:
  assumes "\<bar>v\<bar> \<le> 2" and "\<bar>x\<bar> \<le> 5000"
  shows "fl_mul (Finite v) (Finite x) = Finite (v * x)"
proof -
  have "\<bar>v\<bar> * \<bar>x\<bar> \<le> 2 * 5000"
    by (rule mult_mono) (use assms in simp_all)
  then have "\<bar>v * x\<bar> \<le> 10000" by (simp add: abs_mult)
  moreover have "10000 \<le> float_max" by (simp add: float_max_def)
  ultimately show ?thesis by (simp add: in_range_def)
qed

text \<open>
  Claim C8. The grid has 500 samples, the first \<open>-0.1\<close>, the last \<open>Voc + 0.05\<close>,
  consecutive ones the same distance apart, in strictly ascending order. The comprehension
  raises nothing: at every sample the solver, called with the module's parameters, returns
  a finite current density \<open>xs ! i\<close> of magnitude at most 5000, and \<open>J_range\<close> holds these
  in the order of the grid. The power density at sample \<open>i\<close> is the finite product
  \<open>V_range ! i * xs ! i\<close>, which is within the float range. Every pass of every one of
  these calls starts from a finite \<open>J_guess\<close> and stays within the float range.
\<close>

theorem sweep_grid_and_power:
  "length V_range = 500 \<and> V_range ! 0 = - 0.1 \<and> V_range ! 499 = Voc + 0.05 \<and>
   (\<forall>i<499. V_range ! Suc i - V_range ! i = (Voc + 0.05 - (- 0.1)) / 499) \<and>
   sorted_wrt (<) V_range \<and>
   (\<exists>xs. length xs = 500 \<and>
      (\<forall>i<500. solar_cell_current (V_range ! i) no_kwargs = Inr (Finite (xs ! i)) \<and>
                \<bar>xs ! i\<bar> \<le> 5000) \<and>
      J_range = Inr (map Finite xs) \<and>
      P_range = Inr (map (\<lambda>i. Finite (V_range ! i * xs ! i)) [0..<500])) \<and>
   (\<forall>i<500. \<forall>k. \<exists>J. iterates (V_range ! i) (bind_kwargs no_kwargs) k = Finite J \<and>
      pass_in_range (V_range ! i) (bind_kwargs no_kwargs) J)"
proof -
  have first: "V_range ! 0 = - 0.1"
    by (subst V_range_nth) simp_all
  have last: "V_range ! 499 = Voc + 0.05"
    unfolding V_range_def using linspace_last [of 500 "- 0.1" "Voc + 0.05"] by simp
  from sweep_currents obtain xs where len: "length xs = 500"
    and each: "\<forall>i<500. solar_cell_current (V_range ! i) no_kwargs = Inr (Finite (xs ! i)) \<and>
                        \<bar>xs ! i\<bar> \<le> 5000"
    by blast
  have J: "J_range = Inr (map Finite xs)"
    unfolding J_range_def
    by (rule comprehension_nth) (use len each in \<open>simp_all add: length_V_range\<close>)
  have "map2 fl_mul (map Finite V_range) (map Finite xs) =
        map (\<lambda>i. Finite (V_range ! i * xs ! i)) [0..<500]"
  proof (rule nth_equalityI)
    show "length (map2 fl_mul (map Finite V_range) (map Finite xs)) =
          length (map (\<lambda>i. Finite (V_range ! i * xs ! i)) [0..<500])"
      by (simp add: len length_V_range)
    fix i assume "i < length (map2 fl_mul (map Finite V_range) (map Finite xs))"
    then have i: "i < 500" by (simp add: len length_V_range)
    have "\<bar>V_range ! i\<bar> \<le> 2"
      using V_range_bounds [OF i] by (simp add: abs_le_iff Voc_def)
    moreover have "\<bar>xs ! i\<bar> \<le> 5000" using each i by blast
    ultimately have "fl_mul (Finite (V_range ! i)) (Finite (xs ! i)) =
        Finite (V_range ! i * xs ! i)"
      by (rule power_in_range)
    then show "map2 fl_mul (map Finite V_range) (map Finite xs) ! i =
          map (\<lambda>i. Finite (V_range ! i * xs ! i)) [0..<500] ! i"
      using i by (simp add: len length_V_range del: fl_mul.simps upt_Suc)
  qed
  then have P: "P_range = Inr (map (\<lambda>i. Finite (V_range ! i * xs ! i)) [0..<500])"
    unfolding P_range_def J by simp
  have passes: "\<forall>i<500. \<forall>k. \<exists>J. iterates (V_range ! i) (bind_kwargs no_kwargs) k = Finite J \<and>
      pass_in_range (V_range ! i) (bind_kwargs no_kwargs) J"
  proof (intro allI impI)
    fix i :: nat and k assume i: "i < 500"
    have "- 2 \<le> V_range ! i" using V_range_bounds(1) [OF i] by simp
    moreover have "V_range ! i \<le> 1.9" using V_range_bounds(2) [OF i] by (simp add: Voc_def)
    ultimately show "\<exists>J. iterates (V_range ! i) (bind_kwargs no_kwargs) k = Finite J \<and>
        pass_in_range (V_range ! i) (bind_kwargs no_kwargs) J"
      by (rule module_grid_passes)
  qed
  have grid: "length V_range = 500 \<and> V_range ! 0 = - 0.1 \<and> V_range ! 499 = Voc + 0.05 \<and>
      (\<forall>i<499. V_range ! Suc i - V_range ! i = (Voc + 0.05 - (- 0.1)) / 499) \<and>
      sorted_wrt (<) V_range"
    using length_V_range first last V_range_spacing V_range_ascending by blast
  have "\<exists>xs. length xs = 500 \<and>
      (\<forall>i<500. solar_cell_current (V_range ! i) no_kwargs = Inr (Finite (xs ! i)) \<and>
                \<bar>xs ! i\<bar> \<le> 5000) \<and>
      J_range = Inr (map Finite xs) \<and>
      P_range = Inr (map (\<lambda>i. Finite (V_range ! i * xs ! i)) [0..<500])"
    using len each J P by blast
  with grid passes show ?thesis by (intro conjI) (elim conjE, assumption)+
qed

theorem sweep_grid_and_power_witness:
  "length V_range = 500 \<and> V_range ! 0 = - 0.1 \<and> V_range ! 499 = Voc + 0.05 \<and>
   V_range ! Suc 0 - V_range ! 0 = (Voc + 0.05 - (- 0.1)) / 499 \<and>
   (\<exists>xs. J_range = Inr (map Finite xs) \<and>
      solar_cell_current (V_range ! 0) no_kwargs = Inr (Finite (xs ! 0)) \<and>
      \<bar>xs ! 499\<bar> \<le> 5000 \<and>
      P_range = Inr (map (\<lambda>i. Finite (V_range ! i * xs ! i)) [0..<500])) \<and>
   (\<exists>J. iterates (V_range ! 499) (bind_kwargs no_kwargs) 1 = Finite J \<and>
      pass_in_range (V_range ! 499) (bind_kwargs no_kwargs) J)"
proof -
  have "(0::nat) < 499" "(0::nat) < 500" "(499::nat) < 500" by simp_all
  with sweep_grid_and_power show ?thesis by blast
qed

end
